theory Spec2Isabelle
  imports Main "HOL-Library.AList" "HOL-Library.DAList" "HOL-Library.Char_ord"
    "HOL-Library.List_Lexorder"
begin

section \<open>The Go values that validator.go works with\<close>

text \<open>
  The only run-time failures the package can meet are the two Go panics below: a store
  into a nil map (\<^verbatim>\<open>assignment to entry in nil map\<close>) and a method call through
  a nil pointer. Every function that stores into \<^verbatim>\<open>v.errors\<close> returns a sum, with
  \<open>Inl\<close> the panic.
\<close>

datatype panic = NilMapAssignment | NilPointerDereference

text \<open>
  A Go \<^verbatim>\<open>map[string]T\<close> is \<open>None\<close> when it is the nil map and otherwise an
  association list with distinct keys. The order of the list is the order in which
  \<^verbatim>\<open>range\<close> visits the entries; Go leaves that order open, and every statement
  below is about an arbitrary such list. Reading a nil map is allowed and finds
  nothing; storing into it panics.
\<close>

type_synonym 'v gomap = "(string, 'v) alist option"

definition make_map :: "'v gomap" where
  "make_map = Some DAList.empty"

definition map_len :: "'v gomap \<Rightarrow> nat" where
  "map_len m = (case m of None \<Rightarrow> 0 | Some al \<Rightarrow> length (DAList.impl_of al))"

definition map_index :: "'v gomap \<Rightarrow> string \<Rightarrow> 'v option" where
  \<comment> \<open>the comma-ok form \<^verbatim>\<open>x, exists := m[k]\<close>\<close>
  "map_index m k = (case m of None \<Rightarrow> None | Some al \<Rightarrow> DAList.lookup al k)"

definition map_range :: "'v gomap \<Rightarrow> (string \<times> 'v) list" where
  \<comment> \<open>the entries \<^verbatim>\<open>for k, x := range m\<close> visits, in the order it visits them\<close>
  "map_range m = (case m of None \<Rightarrow> [] | Some al \<Rightarrow> DAList.impl_of al)"

definition map_assign :: "'v gomap \<Rightarrow> string \<Rightarrow> 'v \<Rightarrow> panic + 'v gomap" where
  \<comment> \<open>\<^verbatim>\<open>m[k] = x\<close>\<close>
  "map_assign m k x =
     (case m of None \<Rightarrow> Inl NilMapAssignment | Some al \<Rightarrow> Inr (Some (DAList.update k x al)))"

text \<open>
  A slice is a list and the nil slice is \<open>[]\<close>; \<^verbatim>\<open>m[k]\<close> in its one-value form
  gives the nil slice for a key that is not there.
\<close>

definition slice_at :: "'x list gomap \<Rightarrow> string \<Rightarrow> 'x list" where
  "slice_at m k = (case map_index m k of None \<Rightarrow> [] | Some xs \<Rightarrow> xs)"

fun strings_Join :: "string list \<Rightarrow> string \<Rightarrow> string" where
  "strings_Join [] sep = []"
| "strings_Join [x] sep = x"
| "strings_Join (x # y # ys) sep = x @ sep @ strings_Join (y # ys) sep"


section \<open>ValidationError and Validator\<close>

definition StandaloneErrorKey :: string where
  "StandaloneErrorKey = ''__standalone__''"

record ValidationError =
  Field :: string
  Message :: string

record Validator =
  errors :: "ValidationError list gomap"

text \<open>
  Every method has a pointer receiver. A method is modelled on the Validator the
  receiver points to: it takes that Validator first and, when it stores into it, returns
  the Validator as it is afterwards. The zero value of the struct holds the nil map.
\<close>

definition zero_Validator :: Validator where
  "zero_Validator = \<lparr>errors = None\<rparr>"

definition New :: Validator where
  "New = \<lparr>errors = make_map\<rparr>"

definition AddError :: "Validator \<Rightarrow> string \<Rightarrow> string \<Rightarrow> panic + Validator" where
  "AddError v field message =
     (let v1 = (if errors v = None then v\<lparr>errors := make_map\<rparr> else v)
      in case map_assign (errors v1) field
                (slice_at (errors v1) field @ [\<lparr>Field = field, Message = message\<rparr>]) of
           Inl p \<Rightarrow> Inl p
         | Inr m \<Rightarrow> Inr (v1\<lparr>errors := m\<rparr>))"

definition AddStandaloneError :: "Validator \<Rightarrow> string \<Rightarrow> panic + Validator" where
  "AddStandaloneError v message = AddError v StandaloneErrorKey message"

definition CheckStandalone :: "Validator \<Rightarrow> bool \<Rightarrow> string \<Rightarrow> panic + (bool \<times> Validator)" where
  "CheckStandalone v valid message =
     (if \<not> valid then
        (case AddStandaloneError v message of Inl p \<Rightarrow> Inl p | Inr v' \<Rightarrow> Inr (False, v'))
      else Inr (True, v))"

definition Check :: "Validator \<Rightarrow> bool \<Rightarrow> string \<Rightarrow> string \<Rightarrow> panic + (bool \<times> Validator)" where
  "Check v valid field message =
     (if \<not> valid then
        (case AddError v field message of Inl p \<Rightarrow> Inl p | Inr v' \<Rightarrow> Inr (False, v'))
      else Inr (True, v))"

definition messages_of :: "ValidationError list \<Rightarrow> string list" where
  \<comment> \<open>the loop \<^verbatim>\<open>for i, err := range errs { messages[i] = err.Message }\<close>\<close>
  "messages_of errs = map Message errs"

definition HasErrors :: "Validator \<Rightarrow> bool" where
  "HasErrors v = (map_len (errors v) > 0)"

definition ErrorFor :: "Validator \<Rightarrow> string \<Rightarrow> string" where
  "ErrorFor v field =
     (case map_index (errors v) field of
        Some errs \<Rightarrow> if length errs > 0 then strings_Join (messages_of errs) '', '' else []
      | None \<Rightarrow> [])"

definition HasErrorFor :: "Validator \<Rightarrow> string \<Rightarrow> bool" where
  "HasErrorFor v field =
     (case map_index (errors v) field of Some errs \<Rightarrow> length errs > 0 | None \<Rightarrow> False)"

definition HasStandaloneErrors :: "Validator \<Rightarrow> bool" where
  "HasStandaloneErrors v = HasErrorFor v StandaloneErrorKey"

definition StandaloneErrors :: "Validator \<Rightarrow> string list" where
  "StandaloneErrors v =
     (case map_index (errors v) StandaloneErrorKey of
        Some errs \<Rightarrow> messages_of errs
      | None \<Rightarrow> [])"

definition Errors :: "Validator \<Rightarrow> (string, string) alist" where
  \<comment> \<open>\<^verbatim>\<open>fields\<close> is a local made by \<^verbatim>\<open>make\<close>, so it is never the nil map\<close>
  "Errors v =
     fold (\<lambda>(field, errs) fields.
             if length errs > 0 then DAList.update field (ErrorFor v field) fields else fields)
          (map_range (errors v)) DAList.empty"

definition ValidationErrors :: "Validator \<Rightarrow> ValidationError list gomap" where
  "ValidationErrors v = errors v"

definition Error :: "Validator \<Rightarrow> string" where
  "Error v =
     (let standalone = StandaloneErrors v;
          parts = (if length standalone > 0
                   then [''global: ['' @ strings_Join standalone '', '' @ '']'']
                   else [])
      in strings_Join
           (fold (\<lambda>(field, errs) parts.
                    if field = StandaloneErrorKey then parts
                    else if length errs > 0
                    then parts @ [field @ '': ['' @ strings_Join (messages_of errs) '', '' @ '']'']
                    else parts)
                 (map_range (errors v)) parts)
           '' | '')"

fun Merge_loop :: "(string \<times> ValidationError list) list \<Rightarrow> Validator \<Rightarrow> panic + Validator" where
  "Merge_loop [] v = Inr v"
| "Merge_loop ((field, errs) # rest) v =
     (case map_assign (errors v) field (slice_at (errors v) field @ errs) of
        Inl p \<Rightarrow> Inl p
      | Inr m \<Rightarrow> Merge_loop rest (v\<lparr>errors := m\<rparr>))"

definition Merge :: "Validator \<Rightarrow> Validator \<Rightarrow> panic + Validator" where
  "Merge v other =
     (let v1 = (if errors v = None then v\<lparr>errors := make_map\<rparr> else v)
      in Merge_loop (map_range (errors other)) v1)"

definition Clear :: "Validator \<Rightarrow> Validator" where
  "Clear v = v\<lparr>errors := make_map\<rparr>"

text \<open>
  \<^verbatim>\<open>MarshalJSON\<close> hands \<^verbatim>\<open>json.Marshal\<close> a struct whose one member is the
  map \<^verbatim>\<open>fields\<close>, tagged \<^verbatim>\<open>json:"fields,omitempty"\<close>. The result is modelled as
  the JSON value that the bytes denote: an object whose members, in the order they are
  written, are strings or objects. For a map of strings the encoder returns no error.

  A Go string is any sequence of bytes, and the encoder writes JSON text in UTF-8. It
  walks the string with \<^verbatim>\<open>utf8.DecodeRuneInString\<close> and writes the escape of U+FFFD for every
  byte at which that function returns \<^verbatim>\<open>(RuneError, 1)\<close>; every other character it
  writes as itself or as an escape that denotes it. \<open>utf8_DecodeRune_size\<close> is the
  number of bytes of the well-formed encoding at the head of a string, after the tables
  \<^verbatim>\<open>first\<close> and \<^verbatim>\<open>acceptRanges\<close> of the package \<^verbatim>\<open>unicode/utf8\<close>, and \<open>None\<close>
  for \<^verbatim>\<open>(RuneError, 1)\<close>.
\<close>

definition utf8_multibyte :: "nat \<Rightarrow> nat \<Rightarrow> nat \<Rightarrow> string \<Rightarrow> nat option" where
  \<comment> \<open>a leading byte of a \<open>sz\<close>-byte encoding whose second byte must lie in \<open>lo..hi\<close>\<close>
  "utf8_multibyte sz lo hi rest =
     (if length rest < sz - 1 then None
      else case take (sz - 1) rest of
             [] \<Rightarrow> None
           | s1 # others \<Rightarrow>
               if lo \<le> of_char s1 \<and> of_char s1 \<le> hi
                  \<and> list_all (\<lambda>b. (0x80::nat) \<le> of_char b \<and> of_char b \<le> (0xBF::nat)) others
               then Some sz else None)"

definition utf8_DecodeRune_size :: "string \<Rightarrow> nat option" where
  "utf8_DecodeRune_size s =
     (case s of
        [] \<Rightarrow> None
      | s0 # rest \<Rightarrow>
          (let b = (of_char s0 :: nat)
           in if b < 0x80 then Some 1
              else if b < 0xC2 then None
              else if b < 0xE0 then utf8_multibyte 2 0x80 0xBF rest
              else if b = 0xE0 then utf8_multibyte 3 0xA0 0xBF rest
              else if b < 0xED then utf8_multibyte 3 0x80 0xBF rest
              else if b = 0xED then utf8_multibyte 3 0x80 0x9F rest
              else if b < 0xF0 then utf8_multibyte 3 0x80 0xBF rest
              else if b = 0xF0 then utf8_multibyte 4 0x90 0xBF rest
              else if b < 0xF4 then utf8_multibyte 4 0x80 0xBF rest
              else if b = 0xF4 then utf8_multibyte 4 0x80 0x8F rest
              else None))"

text \<open>
  \<open>json_string s\<close> is the string that the JSON text written for the Go string \<open>s\<close>
  denotes: \<open>s\<close> with the three bytes of U+FFFD in place of every byte that does not start
  or continue a well-formed encoding. The first argument of \<open>json_string_from\<close> counts
  the bytes still to copy of the encoding the walk is in. \<open>utf8_ValidString\<close> is
  \<^verbatim>\<open>utf8.ValidString\<close>: the walk meets no such byte.
\<close>

fun json_string_from :: "nat \<Rightarrow> string \<Rightarrow> string" where
  "json_string_from n [] = []"
| "json_string_from (Suc n) (c # cs) = c # json_string_from n cs"
| "json_string_from 0 (c # cs) =
     (case utf8_DecodeRune_size (c # cs) of
        None \<Rightarrow> [CHR 0xEF, CHR 0xBF, CHR 0xBD] @ json_string_from 0 cs
      | Some sz \<Rightarrow> c # json_string_from (sz - 1) cs)"

definition json_string :: "string \<Rightarrow> string" where
  "json_string s = json_string_from 0 s"

fun utf8_Valid_from :: "nat \<Rightarrow> string \<Rightarrow> bool" where
  "utf8_Valid_from n [] = True"
| "utf8_Valid_from (Suc n) (c # cs) = utf8_Valid_from n cs"
| "utf8_Valid_from 0 (c # cs) =
     (case utf8_DecodeRune_size (c # cs) of
        None \<Rightarrow> False
      | Some sz \<Rightarrow> utf8_Valid_from (sz - 1) cs)"

definition utf8_ValidString :: "string \<Rightarrow> bool" where
  "utf8_ValidString s = utf8_Valid_from 0 s"

text \<open>
  The encoder writes the entries of a map sorted by their keys, compared byte by byte
  as \<^verbatim>\<open>strings.Compare\<close> does, whatever order \<^verbatim>\<open>range\<close> has; keys and values
  are written as JSON strings. With \<^verbatim>\<open>omitempty\<close> it leaves a map of length zero
  out of the object.
\<close>

datatype json = JString string | JObject "(string \<times> json) list"

definition json_Marshal_fields :: "(string, string) alist \<Rightarrow> json" where
  "json_Marshal_fields m =
     JObject (if length (DAList.impl_of m) = 0 then []
              else [(''fields'',
                     JObject (map (\<lambda>(k, s). (json_string k, JString (json_string s)))
                                (sort_key fst (DAList.impl_of m))))])"

definition MarshalJSON :: "Validator \<Rightarrow> json" where
  "MarshalJSON v =
     json_Marshal_fields
       (fold (\<lambda>(field, errs) fields.
                if length errs > 0 then DAList.update field (ErrorFor v field) fields else fields)
             (map_range (errors v)) DAList.empty)"

text \<open>
  Decoding, as the package's test does it with \<^verbatim>\<open>json.Unmarshal\<close> into a
  \<^verbatim>\<open>map[string]map[string]string\<close>: every member of the object is itself an object
  of strings, and of two members with one key the later one stays in the map.
  \<open>fields_of\<close> then reads the member \<^verbatim>\<open>"fields"\<close>, and a member that is not there
  reads as the map with no key, as indexing a Go map does.
\<close>

fun json_strings :: "(string \<times> json) list \<Rightarrow> (string \<times> string) list option" where
  "json_strings [] = Some []"
| "json_strings ((k, JString s) # rest) =
     (case json_strings rest of None \<Rightarrow> None | Some kvs \<Rightarrow> Some ((k, s) # kvs))"
| "json_strings ((k, JObject ms) # rest) = None"

fun json_objects :: "(string \<times> json) list \<Rightarrow> (string \<times> (string \<times> string) list) list option" where
  "json_objects [] = Some []"
| "json_objects ((k, JObject ms) # rest) =
     (case json_strings ms of
        None \<Rightarrow> None
      | Some kvs \<Rightarrow> (case json_objects rest of None \<Rightarrow> None | Some os \<Rightarrow> Some ((k, kvs) # os)))"
| "json_objects ((k, JString s) # rest) = None"

definition json_Unmarshal :: "json \<Rightarrow> (string \<times> (string \<times> string) list) list option" where
  "json_Unmarshal j = (case j of JObject ms \<Rightarrow> json_objects ms | JString s \<Rightarrow> None)"

definition fields_of :: "(string \<times> (string \<times> string) list) list \<Rightarrow> string \<Rightarrow> string option" where
  "fields_of decoded =
     (case map_of (rev decoded) ''fields'' of None \<Rightarrow> Map.empty | Some kvs \<Rightarrow> map_of (rev kvs))"


section \<open>FieldValidation, Group and When\<close>

text \<open>
  The three chain types each hold the pointer \<^verbatim>\<open>v\<close> to the Validator they were
  made from. A chain is used on that one Validator, which the chain methods take and
  return next to the chain value; the field \<^verbatim>\<open>value any\<close> is never inspected and
  has an arbitrary type.
\<close>

record 'a FieldValidation =
  fv_field :: string
  fv_value :: 'a

record Group =
  g_name :: string

record 'a When =
  w_condition :: bool
  w_field :: string
  w_value :: 'a

definition Validator_Field :: "string \<Rightarrow> 'a \<Rightarrow> 'a FieldValidation" where
  "Validator_Field name val = \<lparr>fv_field = name, fv_value = val\<rparr>"

definition FieldValidation_Check ::
  "'a FieldValidation \<Rightarrow> bool \<Rightarrow> string \<Rightarrow> Validator \<Rightarrow> panic + ('a FieldValidation \<times> Validator)" where
  "FieldValidation_Check f valid message v =
     (case Check v valid (fv_field f) message of
        Inl p \<Rightarrow> Inl p
      | Inr (b, v') \<Rightarrow> Inr (f, v'))"

definition Validator_Group :: "string \<Rightarrow> Group" where
  "Validator_Group name = \<lparr>g_name = name\<rparr>"

definition Group_Field :: "Group \<Rightarrow> string \<Rightarrow> 'a \<Rightarrow> 'a FieldValidation" where
  "Group_Field g name val = (let fullName = g_name g @ ''.'' @ name in Validator_Field fullName val)"

definition FieldValidation_When :: "'a FieldValidation \<Rightarrow> bool \<Rightarrow> 'a When" where
  "FieldValidation_When f condition =
     \<lparr>w_condition = condition, w_field = fv_field f, w_value = fv_value f\<rparr>"

definition When_Check ::
  "'a When \<Rightarrow> bool \<Rightarrow> string \<Rightarrow> Validator \<Rightarrow> panic + ('a When \<times> Validator)" where
  "When_Check w valid message v =
     (if w_condition w then
        (case Check v valid (w_field w) message of
           Inl p \<Rightarrow> Inl p
         | Inr (b, v') \<Rightarrow> Inr (w, v'))
      else Inr (w, v))"

definition When_When :: "'a When \<Rightarrow> bool \<Rightarrow> 'a When" where
  "When_When w condition = w\<lparr>w_condition := w_condition w \<and> condition\<rparr>"


section \<open>Call sequences\<close>

text \<open>
  A conditional chain is a \<^verbatim>\<open>When\<close> value followed by calls of its two methods,
  each made on the value the call before it returned.
\<close>

datatype chain_call = CallWhen bool | CallCheck bool string

fun run_chain :: "chain_call list \<Rightarrow> 'a When \<Rightarrow> Validator \<Rightarrow> panic + ('a When \<times> Validator)" where
  "run_chain [] w v = Inr (w, v)"
| "run_chain (CallWhen condition # calls) w v = run_chain calls (When_When w condition) v"
| "run_chain (CallCheck valid message # calls) w v =
     (case When_Check w valid message v of
        Inl p \<Rightarrow> Inl p
      | Inr (w', v') \<Rightarrow> run_chain calls w' v')"

text \<open>The conjunction of the conditions that the \<^verbatim>\<open>When\<close> calls of a sequence pass.\<close>

fun when_conditions :: "chain_call list \<Rightarrow> bool" where
  "when_conditions [] = True"
| "when_conditions (CallWhen condition # calls) = (condition \<and> when_conditions calls)"
| "when_conditions (CallCheck valid message # calls) = when_conditions calls"

text \<open>\<^verbatim>\<open>Check(false, field, m)\<close> for each message \<open>m\<close> of a list, in order.\<close>

fun Check_failures :: "string \<Rightarrow> string list \<Rightarrow> Validator \<Rightarrow> panic + Validator" where
  "Check_failures field [] v = Inr v"
| "Check_failures field (m # ms) v =
     (case Check v False field m of
        Inl p \<Rightarrow> Inl p
      | Inr (b, v') \<Rightarrow> Check_failures field ms v')"

text \<open>
  The states a Validator made by \<^verbatim>\<open>New()\<close> can reach through the methods that
  store into it.
\<close>

inductive reachable :: "Validator \<Rightarrow> bool" where
  reach_New: "reachable New"
| reach_AddError: "reachable v \<Longrightarrow> AddError v field message = Inr v' \<Longrightarrow> reachable v'"
| reach_AddStandaloneError:
    "reachable v \<Longrightarrow> AddStandaloneError v message = Inr v' \<Longrightarrow> reachable v'"
| reach_Check: "reachable v \<Longrightarrow> Check v valid field message = Inr (b, v') \<Longrightarrow> reachable v'"
| reach_CheckStandalone:
    "reachable v \<Longrightarrow> CheckStandalone v valid message = Inr (b, v') \<Longrightarrow> reachable v'"
| reach_Merge: "reachable v \<Longrightarrow> reachable other \<Longrightarrow> Merge v other = Inr v' \<Longrightarrow> reachable v'"
| reach_Clear: "reachable v \<Longrightarrow> reachable (Clear v)"

text \<open>
  \<^verbatim>\<open>v.Merge(other)\<close> is the one call that takes two Validator pointers, which may
  or may not point to the same Validator. For it the Validators live in a store, from
  addresses to Validators; an address with no Validator is a nil pointer.
\<close>

type_synonym store = "nat \<Rightarrow> Validator option"

definition Merge_call :: "nat \<Rightarrow> nat \<Rightarrow> store \<Rightarrow> panic + store" where
  "Merge_call p q s =
     (case s p of
        None \<Rightarrow> Inl NilPointerDereference
      | Some v \<Rightarrow>
          (case s q of
             None \<Rightarrow> Inl NilPointerDereference
           | Some other \<Rightarrow>
               (case Merge v other of
                  Inl e \<Rightarrow> Inl e
                | Inr v' \<Rightarrow> Inr (s(p \<mapsto> v')))))"


section \<open>Properties of the Go map operations\<close>

lemma map_index_make_map: "map_index make_map k = None"
  by (simp add: map_index_def make_map_def)

lemma map_assign_Some: "map_assign (Some al) k x = Inr (Some (DAList.update k x al))"
  by (simp add: map_assign_def)

lemma map_index_update:
  "map_index (Some (DAList.update k x al)) k' = (if k' = k then Some x else map_index (Some al) k')"
  by (simp add: map_index_def DAList.lookup_update)

lemma AddError_result:
  "AddError v field message =
     Inr (v\<lparr>errors := Some (DAList.update field
            (slice_at (errors v) field @ [\<lparr>Field = field, Message = message\<rparr>])
            (case errors v of None \<Rightarrow> DAList.empty | Some al \<Rightarrow> al))\<rparr>)"
  by (cases "errors v")
     (simp_all add: AddError_def Let_def make_map_def map_assign_def slice_at_def map_index_def)

lemma AddError_index:
  "AddError v field message = Inr v' \<Longrightarrow>
   map_index (errors v') k =
     (if k = field then Some (slice_at (errors v) field @ [\<lparr>Field = field, Message = message\<rparr>])
      else map_index (errors v) k)"
  by (cases "errors v") (auto simp: AddError_result map_index_update map_index_def)


section \<open>Validator.Check\<close>

text \<open>
  C4. \<^verbatim>\<open>Validator.Check(valid, field, message)\<close> never panics and returns
  \<open>valid\<close>. When \<open>valid\<close> is true the Validator is left as it was. When it is false the
  sequence at \<open>field\<close> becomes the old one (empty if the key was absent) followed by
  \<^verbatim>\<open>ValidationError{field, message}\<close>, and every other key is as before.
\<close>

theorem Check_returns_valid_and_appends:
  "\<exists>v'. Check v valid field message = Inr (valid, v')
      \<and> (if valid then v' = v
         else map_index (errors v') field =
                Some (slice_at (errors v) field @ [\<lparr>Field = field, Message = message\<rparr>])
            \<and> (\<forall>k. k \<noteq> field \<longrightarrow> map_index (errors v') k = map_index (errors v) k))"
proof (cases valid)
  case True
  then show ?thesis by (simp add: Check_def)
next
  case False
  obtain v' where v': "AddError v field message = Inr v'"
    by (simp add: AddError_result)
  have "Check v valid field message = Inr (valid, v')"
    using False v' by (simp add: Check_def)
  moreover have "map_index (errors v') field =
      Some (slice_at (errors v) field @ [\<lparr>Field = field, Message = message\<rparr>])"
    using AddError_index [OF v', of field] by simp
  moreover have "\<forall>k. k \<noteq> field \<longrightarrow> map_index (errors v') k = map_index (errors v) k"
    using AddError_index [OF v'] by simp
  ultimately show ?thesis using False by auto
qed

theorem Check_returns_valid_and_appends_witness:
  "''name'' \<noteq> ''email''
   \<and> (\<exists>v'. Check New False ''email'' ''required'' = Inr (False, v')
          \<and> map_index (errors v') ''email'' = Some [\<lparr>Field = ''email'', Message = ''required''\<rparr>]
          \<and> map_index (errors v') ''name'' = None)"
  using Check_returns_valid_and_appends [of New False "''email''" "''required''"]
  by (auto simp: New_def slice_at_def map_index_make_map)

section \<open>Recording errors\<close>

lemma slice_at_AddError:
  "AddError v field message = Inr v' \<Longrightarrow>
   slice_at (errors v') k =
     (if k = field then slice_at (errors v) field @ [\<lparr>Field = field, Message = message\<rparr>]
      else slice_at (errors v) k)"
  by (simp add: slice_at_def AddError_index)

lemma AddError_total: "\<exists>v'. AddError v field message = Inr v'"
  by (simp add: AddError_result)

lemma Check_cases:
  "\<exists>v'. Check v valid field message = Inr (valid, v') \<and>
     (\<forall>k. slice_at (errors v') k =
        slice_at (errors v) k @ (if k = field \<and> \<not> valid then [\<lparr>Field = field, Message = message\<rparr>] else []))"
proof (cases valid)
  case True
  then show ?thesis by (simp add: Check_def)
next
  case False
  obtain v' where v': "AddError v field message = Inr v'"
    using AddError_total by blast
  then show ?thesis using False slice_at_AddError [OF v'] by (simp add: Check_def)
qed

lemma Check_failures_slice:
  "\<exists>v'. Check_failures field ms v = Inr v' \<and>
     (\<forall>k. slice_at (errors v') k =
        slice_at (errors v) k @ (if k = field then map (\<lambda>m. \<lparr>Field = field, Message = m\<rparr>) ms else []))"
proof (induction ms arbitrary: v)
  case Nil
  then show ?case by simp
next
  case (Cons m ms)
  obtain v1 where v1: "Check v False field m = Inr (False, v1)"
    and s1: "\<forall>k. slice_at (errors v1) k =
        slice_at (errors v) k @ (if k = field \<and> \<not> False then [\<lparr>Field = field, Message = m\<rparr>] else [])"
    using Check_cases [of v False field m] by blast
  obtain v' where v': "Check_failures field ms v1 = Inr v'"
    and s': "\<forall>k. slice_at (errors v') k =
        slice_at (errors v1) k @ (if k = field then map (\<lambda>m. \<lparr>Field = field, Message = m\<rparr>) ms else [])"
    using Cons.IH [of v1] by blast
  have "Check_failures field (m # ms) v = Inr v'"
    using v1 v' by simp
  moreover have "\<forall>k. slice_at (errors v') k =
        slice_at (errors v) k @ (if k = field then map (\<lambda>m. \<lparr>Field = field, Message = m\<rparr>) (m # ms) else [])"
    using s1 s' by simp
  ultimately show ?case by blast
qed

lemma ErrorFor_slice:
  "ErrorFor v field = strings_Join (messages_of (slice_at (errors v) field)) '', ''"
  by (cases "map_index (errors v) field") (auto simp: ErrorFor_def slice_at_def messages_of_def)

lemma slice_at_New: "slice_at (errors New) k = []"
  by (simp add: slice_at_def New_def map_index_make_map)

section \<open>ErrorFor\<close>

text \<open>
  C5. After \<^verbatim>\<open>Check(false, field, m)\<close> for each message of a list, in order, on a
  Validator made by \<^verbatim>\<open>New()\<close>, \<^verbatim>\<open>ErrorFor(field)\<close> is the list joined with
  \<^verbatim>\<open>", "\<close> in that order. On any Validator, \<^verbatim>\<open>ErrorFor\<close> of a field that
  has no error is the empty string.
\<close>

theorem ErrorFor_joins_messages_in_call_order:
  "(\<exists>v'. Check_failures field msgs New = Inr v' \<and> ErrorFor v' field = strings_Join msgs '', '')
   \<and> (\<not> HasErrorFor v f \<longrightarrow> ErrorFor v f = [])"
proof -
  obtain v' where v': "Check_failures field msgs New = Inr v'"
    and s': "\<forall>k. slice_at (errors v') k =
        slice_at (errors New) k @ (if k = field then map (\<lambda>m. \<lparr>Field = field, Message = m\<rparr>) msgs else [])"
    using Check_failures_slice [of field msgs New] by blast
  have "messages_of (slice_at (errors v') field) = msgs"
    using s' by (simp add: slice_at_New messages_of_def comp_def)
  then have "ErrorFor v' field = strings_Join msgs '', ''"
    by (simp add: ErrorFor_slice)
  moreover have "\<not> HasErrorFor v f \<longrightarrow> ErrorFor v f = []"
    by (auto simp: HasErrorFor_def ErrorFor_def split: option.splits)
  ultimately show ?thesis using v' by blast
qed

theorem ErrorFor_joins_messages_in_call_order_witness:
  "\<not> HasErrorFor New ''email''
   \<and> ErrorFor New ''email'' = []
   \<and> (\<exists>v'. Check_failures ''email'' [''required'', ''too short'', ''no @''] New = Inr v'
          \<and> ErrorFor v' ''email'' = ''required, too short, no @'')"
  using ErrorFor_joins_messages_in_call_order
    [of "''email''" "[''required'', ''too short'', ''no @'']" New "''email''"]
  by (auto simp: HasErrorFor_def New_def map_index_make_map simp del: Check_failures.simps)

section \<open>The conditional chain\<close>

lemma When_Check_cases:
  "\<exists>v'. When_Check w valid message v = Inr (w, v') \<and>
     (if w_condition w \<and> \<not> valid
      then \<forall>k. slice_at (errors v') k =
             slice_at (errors v) k @ (if k = w_field w then [\<lparr>Field = w_field w, Message = message\<rparr>] else [])
      else v' = v)"
proof (cases "w_condition w")
  case False
  then show ?thesis by (simp add: When_Check_def)
next
  case True
  show ?thesis
  proof (cases valid)
    case True
    then show ?thesis by (simp add: When_Check_def Check_def)
  next
    case False
    obtain v' where v': "Check v valid (w_field w) message = Inr (valid, v')"
      and s: "\<forall>k. slice_at (errors v') k =
        slice_at (errors v) k @ (if k = w_field w \<and> \<not> valid then [\<lparr>Field = w_field w, Message = message\<rparr>] else [])"
      using Check_cases [of v valid "w_field w" message] by blast
    have "When_Check w valid message v = Inr (w, v')"
      using \<open>w_condition w\<close> v' by (simp add: When_Check_def)
    then show ?thesis using s False \<open>w_condition w\<close> by auto
  qed
qed

lemma run_chain_condition:
  "\<exists>v'. run_chain calls w v = Inr (w\<lparr>w_condition := w_condition w \<and> when_conditions calls\<rparr>, v')"
proof (induction calls arbitrary: w v)
  case Nil
  then show ?case by simp
next
  case (Cons c calls)
  show ?case
  proof (cases c)
    case (CallWhen b)
    then show ?thesis using Cons.IH [of "When_When w b" v]
      by (simp add: When_When_def conj_assoc)
  next
    case (CallCheck valid message)
    obtain v1 where "When_Check w valid message v = Inr (w, v1)"
      using When_Check_cases [of w valid message v] by blast
    then show ?thesis using CallCheck Cons.IH [of w v1] by simp
  qed
qed

lemma When_When_false: "\<not> w_condition w \<Longrightarrow> When_When w condition = w"
  by (simp add: When_When_def)

lemma run_chain_false:
  "\<not> w_condition w \<Longrightarrow> run_chain calls w v = Inr (w, v)"
proof (induction calls)
  case Nil
  then show ?case by simp
next
  case (Cons c calls)
  then show ?case
    by (cases c) (simp_all add: When_When_false When_Check_def)
qed

lemma run_chain_appends:
  "\<exists>w' v'. run_chain calls w v = Inr (w', v') \<and>
     (\<forall>k. \<exists>rest. slice_at (errors v') k = slice_at (errors v) k @ rest)"
proof (induction calls arbitrary: w v)
  case Nil
  then show ?case by simp
next
  case (Cons c calls)
  show ?case
  proof (cases c)
    case (CallWhen b)
    then show ?thesis using Cons.IH [of "When_When w b" v] by simp
  next
    case (CallCheck valid message)
    obtain v1 where v1: "When_Check w valid message v = Inr (w, v1)"
      and s1: "if w_condition w \<and> \<not> valid
      then \<forall>k. slice_at (errors v1) k =
             slice_at (errors v) k @ (if k = w_field w then [\<lparr>Field = w_field w, Message = message\<rparr>] else [])
      else v1 = v"
      using When_Check_cases [of w valid message v] by blast
    have a1: "\<forall>k. \<exists>rest. slice_at (errors v1) k = slice_at (errors v) k @ rest"
      using s1 by (auto split: if_splits)
    obtain w' v' where r: "run_chain calls w v1 = Inr (w', v')"
      and s': "\<forall>k. \<exists>rest. slice_at (errors v') k = slice_at (errors v1) k @ rest"
      using Cons.IH [of w v1] by blast
    have "\<forall>k. \<exists>rest. slice_at (errors v') k = slice_at (errors v) k @ rest"
    proof
      fix k
      obtain r1 where "slice_at (errors v1) k = slice_at (errors v) k @ r1" using a1 by blast
      moreover obtain r2 where "slice_at (errors v') k = slice_at (errors v1) k @ r2" using s' by blast
      ultimately show "\<exists>rest. slice_at (errors v') k = slice_at (errors v) k @ rest" by simp
    qed
    then show ?thesis using CallCheck v1 r by simp
  qed
qed

lemma FieldValidation_When_fields:
  "w_condition (FieldValidation_When f c) = c" "w_field (FieldValidation_When f c) = fv_field f"
  by (simp_all add: FieldValidation_When_def)

text \<open>
  C1. Take the chain \<^verbatim>\<open>f.When(c0)\<close> followed by any calls \<open>pre\<close> of
  \<^verbatim>\<open>When\<close> and \<^verbatim>\<open>Check\<close>, on any Validator. The calls all return, and the
  running condition is then \<open>c0\<close> and every condition the \<^verbatim>\<open>When\<close> calls of \<open>pre\<close>
  passed. A \<^verbatim>\<open>Check(valid, message)\<close> made next is the Validator's
  \<^verbatim>\<open>Check(valid, field, message)\<close> when that conjunction is true and does nothing
  when it is false; so it records \<^verbatim>\<open>ValidationError{field, message}\<close> exactly when
  the conjunction is true and \<open>valid\<close> is false, and otherwise the Validator stays as it
  was. Once the conjunction is false, no later calls of the chain change the condition
  or the Validator.
\<close>

theorem conditional_Check_forwards_iff_conditions_hold:
  "\<exists>w v1 v2.
      run_chain pre (FieldValidation_When f c0) v = Inr (w, v1)
    \<and> w_condition w = (c0 \<and> when_conditions pre)
    \<and> w_field w = fv_field f
    \<and> When_Check w valid message v1 =
        (if c0 \<and> when_conditions pre
         then (case Check v1 valid (fv_field f) message of
                 Inl p \<Rightarrow> Inl p
               | Inr (b, v') \<Rightarrow> Inr (w, v'))
         else Inr (w, v1))
    \<and> When_Check w valid message v1 = Inr (w, v2)
    \<and> (if (c0 \<and> when_conditions pre) \<and> \<not> valid
       then slice_at (errors v2) (fv_field f) =
              slice_at (errors v1) (fv_field f) @ [\<lparr>Field = fv_field f, Message = message\<rparr>]
       else v2 = v1)
    \<and> (\<not> (c0 \<and> when_conditions pre) \<longrightarrow> (\<forall>post. run_chain post w v1 = Inr (w, v1)))"
proof -
  define w0 where "w0 = FieldValidation_When f c0"
  define w where "w = w0\<lparr>w_condition := w_condition w0 \<and> when_conditions pre\<rparr>"
  obtain v1 where run: "run_chain pre w0 v = Inr (w, v1)"
    unfolding w_def using run_chain_condition [of pre w0 v] by blast
  have cond: "w_condition w = (c0 \<and> when_conditions pre)"
    by (simp add: w_def w0_def FieldValidation_When_fields)
  have field: "w_field w = fv_field f"
    by (simp add: w_def w0_def FieldValidation_When_fields)
  have fwd: "When_Check w valid message v1 =
        (if c0 \<and> when_conditions pre
         then (case Check v1 valid (fv_field f) message of
                 Inl p \<Rightarrow> Inl p
               | Inr (b, v') \<Rightarrow> Inr (w, v'))
         else Inr (w, v1))"
    using cond field by (simp add: When_Check_def)
  obtain v2 where chk: "When_Check w valid message v1 = Inr (w, v2)"
    and eff: "if w_condition w \<and> \<not> valid
      then \<forall>k. slice_at (errors v2) k =
             slice_at (errors v1) k @ (if k = w_field w then [\<lparr>Field = w_field w, Message = message\<rparr>] else [])
      else v2 = v1"
    using When_Check_cases [of w valid message v1] by blast
  have rec: "if (c0 \<and> when_conditions pre) \<and> \<not> valid
       then slice_at (errors v2) (fv_field f) =
              slice_at (errors v1) (fv_field f) @ [\<lparr>Field = fv_field f, Message = message\<rparr>]
       else v2 = v1"
    using eff cond field by (simp split: if_splits)
  have stay: "\<not> (c0 \<and> when_conditions pre) \<longrightarrow> (\<forall>post. run_chain post w v1 = Inr (w, v1))"
    using cond run_chain_false [of w] by simp
  show ?thesis
    using run cond field fwd chk rec stay unfolding w0_def by blast
qed

theorem conditional_Check_forwards_iff_conditions_hold_witness:
  "\<not> (True \<and> when_conditions [CallCheck False ''a'', CallWhen False])
   \<and> (\<exists>w v1. run_chain [CallCheck False ''a'', CallWhen False]
                (FieldValidation_When (Validator_Field ''f'' ()) True) New = Inr (w, v1)
            \<and> When_Check w False ''b'' v1 = Inr (w, v1)
            \<and> run_chain [CallWhen True, CallCheck False ''c''] w v1 = Inr (w, v1))"
  using conditional_Check_forwards_iff_conditions_hold
    [of "[CallCheck False ''a'', CallWhen False]" "Validator_Field ''f'' ()" True New False "''b''"]
  by (auto simp del: run_chain.simps)

lemmas eval_defs = FieldValidation_When_def Validator_Field_def When_Check_def When_When_def
  FieldValidation_Check_def
  Check_def AddError_def New_def make_map_def map_assign_def slice_at_def map_index_def

text \<open>
  C2. The chain
  \<^verbatim>\<open>Field(f, v).When(true).Check(false, "a").When(false).Check(false, "b").When(true).Check(false, "c")\<close>
  on a Validator made by \<^verbatim>\<open>New()\<close> returns with the running condition false and
  with \<open>f\<close> as the only key of the Validator, holding the one error \<open>a\<close>: the messages
  for \<open>f\<close> are exactly \<open>[a]\<close> and \<^verbatim>\<open>ErrorFor(f)\<close> is \<open>a\<close>. Neither \<open>b\<close> nor \<open>c\<close>
  is recorded, since \<^verbatim>\<open>When(true)\<close> after \<^verbatim>\<open>When(false)\<close> leaves the condition
  false.
\<close>

theorem mixed_conditions_record_only_a:
  "run_chain [CallCheck False ''a'', CallWhen False, CallCheck False ''b'', CallWhen True,
              CallCheck False ''c'']
     (FieldValidation_When (Validator_Field f val) True) New
   = Inr (\<lparr>w_condition = False, w_field = f, w_value = val\<rparr>,
          \<lparr>errors = Some (DAList.update f [\<lparr>Field = f, Message = ''a''\<rparr>] DAList.empty)\<rparr>)
   \<and> messages_of (slice_at
        (errors \<lparr>errors = Some (DAList.update f [\<lparr>Field = f, Message = ''a''\<rparr>] DAList.empty)\<rparr>) f)
       = [''a'']
   \<and> ErrorFor \<lparr>errors = Some (DAList.update f [\<lparr>Field = f, Message = ''a''\<rparr>] DAList.empty)\<rparr> f
       = ''a''"
  by (simp add: eval_defs messages_of_def ErrorFor_def)

text \<open>
  The claim as it is written, with the messages \<open>[a, c]\<close>, fails for the field \<open>f\<close>:
  the chain leaves the messages \<open>[a]\<close>.
\<close>

theorem mixed_conditions_not_a_c:
  "run_chain [CallCheck False ''a'', CallWhen False, CallCheck False ''b'', CallWhen True,
              CallCheck False ''c'']
     (FieldValidation_When (Validator_Field ''f'' ()) True) New
   = Inr (\<lparr>w_condition = False, w_field = ''f'', w_value = ()\<rparr>,
          \<lparr>errors = Some (DAList.update ''f'' [\<lparr>Field = ''f'', Message = ''a''\<rparr>] DAList.empty)\<rparr>)
   \<and> messages_of (slice_at
        (errors \<lparr>errors = Some (DAList.update ''f'' [\<lparr>Field = ''f'', Message = ''a''\<rparr>] DAList.empty)\<rparr>)
        ''f'')
       \<noteq> [''a'', ''c'']"
  by (simp add: eval_defs messages_of_def)

text \<open>
  C3. A failing \<^verbatim>\<open>Check\<close> made on a FieldValidation itself always records: it
  returns, and the sequence at the field is the old one followed by the new error.
  Whatever \<^verbatim>\<open>When(c)\<close> and further chain calls follow, they return and the sequence
  still starts with the old errors and that error. In particular
  \<^verbatim>\<open>Field(f, v).Check(false, "x").When(false).Check(false, "y")\<close> on a Validator made
  by \<^verbatim>\<open>New()\<close> gives \<^verbatim>\<open>ErrorFor(f) = "x"\<close>.
\<close>

theorem plain_Check_records_whatever_follows:
  "(\<exists>v1. FieldValidation_Check fv False message v = Inr (fv, v1)
        \<and> slice_at (errors v1) (fv_field fv) =
            slice_at (errors v) (fv_field fv) @ [\<lparr>Field = fv_field fv, Message = message\<rparr>]
        \<and> (\<exists>w v2 rest. run_chain calls (FieldValidation_When fv c) v1 = Inr (w, v2)
              \<and> slice_at (errors v2) (fv_field fv) =
                  slice_at (errors v) (fv_field fv) @ [\<lparr>Field = fv_field fv, Message = message\<rparr>] @ rest))
   \<and> (\<exists>v1 w v2. FieldValidation_Check (Validator_Field f val) False ''x'' New
                    = Inr (Validator_Field f val, v1)
        \<and> run_chain [CallCheck False ''y''] (FieldValidation_When (Validator_Field f val) False) v1
            = Inr (w, v2)
        \<and> ErrorFor v2 f = ''x'')"
proof -
  obtain v1 where c: "Check v False (fv_field fv) message = Inr (False, v1)"
    and s1: "\<forall>k. slice_at (errors v1) k =
        slice_at (errors v) k
        @ (if k = fv_field fv \<and> \<not> False then [\<lparr>Field = fv_field fv, Message = message\<rparr>] else [])"
    using Check_cases [of v False "fv_field fv" message] by blast
  have a: "FieldValidation_Check fv False message v = Inr (fv, v1)"
    using c by (simp add: FieldValidation_Check_def)
  have b: "slice_at (errors v1) (fv_field fv) =
            slice_at (errors v) (fv_field fv) @ [\<lparr>Field = fv_field fv, Message = message\<rparr>]"
    using s1 by simp
  obtain w v2 where r: "run_chain calls (FieldValidation_When fv c) v1 = Inr (w, v2)"
    and s2: "\<forall>k. \<exists>rest. slice_at (errors v2) k = slice_at (errors v1) k @ rest"
    using run_chain_appends [of calls "FieldValidation_When fv c" v1] by blast
  obtain rest where "slice_at (errors v2) (fv_field fv) = slice_at (errors v1) (fv_field fv) @ rest"
    using s2 by blast
  then have d: "slice_at (errors v2) (fv_field fv) =
      slice_at (errors v) (fv_field fv) @ [\<lparr>Field = fv_field fv, Message = message\<rparr>] @ rest"
    using b by simp
  have first: "\<exists>v1. FieldValidation_Check fv False message v = Inr (fv, v1)
        \<and> slice_at (errors v1) (fv_field fv) =
            slice_at (errors v) (fv_field fv) @ [\<lparr>Field = fv_field fv, Message = message\<rparr>]
        \<and> (\<exists>w v2 rest. run_chain calls (FieldValidation_When fv c) v1 = Inr (w, v2)
              \<and> slice_at (errors v2) (fv_field fv) =
                  slice_at (errors v) (fv_field fv) @ [\<lparr>Field = fv_field fv, Message = message\<rparr>] @ rest)"
    using a b r d by blast
  define s where "s = \<lparr>errors = Some (DAList.update f [\<lparr>Field = f, Message = ''x''\<rparr>] DAList.empty)\<rparr>"
  have e1: "FieldValidation_Check (Validator_Field f val) False ''x'' New = Inr (Validator_Field f val, s)"
    by (simp add: s_def eval_defs)
  have e2: "run_chain [CallCheck False ''y''] (FieldValidation_When (Validator_Field f val) False) s
            = Inr (FieldValidation_When (Validator_Field f val) False, s)"
    by (simp add: eval_defs)
  have e3: "ErrorFor s f = ''x''"
    by (simp add: s_def ErrorFor_def map_index_def messages_of_def)
  have second: "\<exists>v1 w v2. FieldValidation_Check (Validator_Field f val) False ''x'' New
                    = Inr (Validator_Field f val, v1)
        \<and> run_chain [CallCheck False ''y''] (FieldValidation_When (Validator_Field f val) False) v1
            = Inr (w, v2)
        \<and> ErrorFor v2 f = ''x''"
    using e1 e2 e3 by blast
  show ?thesis
    by (intro conjI) (rule first, rule second)
qed


section \<open>Group\<close>

lemma Group_Field_eq: "Group_Field (Validator_Group g) n val = Validator_Field (g @ ''.'' @ n) val"
  by (simp add: Group_Field_def Validator_Group_def)

lemma Field_Check_failure_New:
  "FieldValidation_Check (Validator_Field k val) False message New
      = Inr (Validator_Field k val,
             \<lparr>errors = Some (DAList.update k [\<lparr>Field = k, Message = message\<rparr>] DAList.empty)\<rparr>)"
  by (simp add: eval_defs)

lemma HasErrorFor_single:
  "HasErrorFor \<lparr>errors = Some (DAList.update k [\<lparr>Field = k, Message = message\<rparr>] DAList.empty)\<rparr> k'
      = (k' = k)"
  by (simp add: HasErrorFor_def map_index_def DAList.lookup_update)

text \<open>
  C8. \<^verbatim>\<open>Group(g).Field(n, v)\<close> is the FieldValidation that \<^verbatim>\<open>Field\<close> makes for the
  name \<open>g\<close>, a dot and \<open>n\<close>. A failing \<^verbatim>\<open>Check\<close> on it, on a Validator made by
  \<^verbatim>\<open>New()\<close>, returns and leaves an error for exactly that name, so none for \<open>n\<close>
  alone. In particular \<^verbatim>\<open>Group("user").Field("name", "").Check(false, "required")\<close>
  makes \<^verbatim>\<open>HasErrorFor("user.name")\<close> true and leaves \<^verbatim>\<open>HasErrorFor("name")\<close> false.
\<close>

theorem Group_Field_prefixes_group_name:
  "Group_Field (Validator_Group g) n val = Validator_Field (g @ ''.'' @ n) val
   \<and> (\<exists>v'. FieldValidation_Check (Group_Field (Validator_Group g) n val) False message New
             = Inr (Validator_Field (g @ ''.'' @ n) val, v')
         \<and> (\<forall>k. HasErrorFor v' k = (k = g @ ''.'' @ n))
         \<and> \<not> HasErrorFor v' n)
   \<and> (\<exists>v'. FieldValidation_Check (Group_Field (Validator_Group ''user'') ''name'' '''') False
               ''required'' New
             = Inr (Validator_Field ''user.name'' '''', v')
         \<and> HasErrorFor v' ''user.name'' \<and> \<not> HasErrorFor v' ''name'')"
proof -
  have ne: "n \<noteq> g @ ''.'' @ n"
  proof
    assume "n = g @ ''.'' @ n"
    then have "length n = length (g @ ''.'' @ n)" by simp
    then show False by simp
  qed
  have general: "\<exists>v'. FieldValidation_Check (Group_Field (Validator_Group g) n val) False message New
             = Inr (Validator_Field (g @ ''.'' @ n) val, v')
         \<and> (\<forall>k. HasErrorFor v' k = (k = g @ ''.'' @ n))
         \<and> \<not> HasErrorFor v' n"
    using ne by (simp add: Group_Field_eq Field_Check_failure_New HasErrorFor_single del: append.simps)
  have literal: "\<exists>v'. FieldValidation_Check (Group_Field (Validator_Group ''user'') ''name'' '''') False
               ''required'' New
             = Inr (Validator_Field ''user.name'' '''', v')
         \<and> HasErrorFor v' ''user.name'' \<and> \<not> HasErrorFor v' ''name''"
    by (simp add: Group_Field_eq Field_Check_failure_New HasErrorFor_single)
  show ?thesis
    by (intro conjI) (rule Group_Field_eq, rule general, rule literal)
qed


section \<open>Merge\<close>

lemma map_of_map_range: "map_of (map_range m) k = map_index m k"
  by (cases m) (simp_all add: map_range_def map_index_def DAList.lookup.rep_eq)

lemma distinct_map_range: "distinct (map fst (map_range m))"
  by (cases m) (simp_all add: map_range_def)

lemma Merge_loop_index:
  "distinct (map fst xs) \<Longrightarrow> errors v \<noteq> None \<Longrightarrow>
   \<exists>v'. Merge_loop xs v = Inr v' \<and> errors v' \<noteq> None \<and>
     (\<forall>k. map_index (errors v') k =
        (case map_of xs k of
           None \<Rightarrow> map_index (errors v) k
         | Some errs \<Rightarrow> Some (slice_at (errors v) k @ errs)))"
proof (induction xs arbitrary: v)
  case Nil
  then show ?case by simp
next
  case (Cons x xs)
  obtain field errs where x: "x = (field, errs)" by (cases x)
  obtain al where al: "errors v = Some al" using Cons.prems by blast
  define v1 where "v1 = v\<lparr>errors := Some (DAList.update field (slice_at (errors v) field @ errs) al)\<rparr>"
  have step: "Merge_loop (x # xs) v = Merge_loop xs v1"
    by (simp add: x al v1_def map_assign_def)
  have i1: "map_index (errors v1) k =
      (if k = field then Some (slice_at (errors v) field @ errs) else map_index (errors v) k)" for k
    by (simp add: v1_def al map_index_update)
  have notin: "map_of xs field = None"
    using Cons.prems(1) x by (simp add: map_of_eq_None_iff)
  obtain v' where r: "Merge_loop xs v1 = Inr v'" and ne: "errors v' \<noteq> None"
    and i': "\<forall>k. map_index (errors v') k =
        (case map_of xs k of
           None \<Rightarrow> map_index (errors v1) k
         | Some errs \<Rightarrow> Some (slice_at (errors v1) k @ errs))"
    using Cons.IH [of v1] Cons.prems(1) by (auto simp: v1_def)
  have "map_index (errors v') k =
        (case map_of (x # xs) k of
           None \<Rightarrow> map_index (errors v) k
         | Some errs \<Rightarrow> Some (slice_at (errors v) k @ errs))" for k
  proof (cases "k = field")
    case True
    then show ?thesis using i' notin i1 by (simp add: x)
  next
    case False
    then have "map_index (errors v1) k = map_index (errors v) k"
      using i1 by simp
    moreover from this have "slice_at (errors v1) k = slice_at (errors v) k"
      by (simp add: slice_at_def)
    ultimately show ?thesis using i' False by (simp add: x cong: option.case_cong)
  qed
  then show ?case using step r ne by simp
qed

lemma Merge_index:
  "\<exists>v'. Merge v other = Inr v' \<and> errors v' \<noteq> None \<and>
     (\<forall>k. map_index (errors v') k =
        (case map_index (errors other) k of
           None \<Rightarrow> map_index (errors v) k
         | Some errs \<Rightarrow> Some (slice_at (errors v) k @ errs)))"
proof -
  define v1 where "v1 = (if errors v = None then v\<lparr>errors := make_map\<rparr> else v)"
  have ne: "errors v1 \<noteq> None"
    by (simp add: v1_def make_map_def)
  have same: "map_index (errors v1) k = map_index (errors v) k" for k
    by (simp add: v1_def map_index_make_map) (simp add: map_index_def)
  have sl: "slice_at (errors v1) k = slice_at (errors v) k" for k
    using same by (simp add: slice_at_def)
  have m: "Merge v other = Merge_loop (map_range (errors other)) v1"
    by (simp add: Merge_def v1_def)
  show ?thesis
    using Merge_loop_index [OF distinct_map_range ne, of "errors other"]
    by (simp add: m map_of_map_range same sl cong: option.case_cong)
qed

lemma HasErrorFor_index:
  "HasErrorFor v k = (\<exists>errs. map_index (errors v) k = Some errs \<and> errs \<noteq> [])"
  by (cases "map_index (errors v) k") (simp_all add: HasErrorFor_def)

text \<open>
  C6, as the code has it. Let \<open>p\<close> and \<open>q\<close> point to the Validators \<open>v1\<close> and \<open>v2\<close>.
  The call \<^verbatim>\<open>v1.Merge(v2)\<close> returns and changes the store at \<open>p\<close> only. Afterwards
  every field of \<open>v2\<close> holds, in \<open>v1\<close>, the sequence \<open>v1\<close> had for it (none if the key
  was absent) followed by the sequence of \<open>v2\<close> in its order, every other field of \<open>v1\<close>
  is as before, and \<^verbatim>\<open>HasErrorFor(f)\<close> is true for every field that had errors in
  \<open>v1\<close> or in \<open>v2\<close>. A \<open>v2\<close> that is another Validator than \<open>v1\<close> is as it was. When
  \<open>v2\<close> is \<open>v1\<close> itself, the call leaves every sequence of it followed by itself.
\<close>

theorem Merge_appends_other_after_own:
  assumes "s p = Some v1" and "s q = Some v2"
  shows "\<exists>v1'. Merge_call p q s = Inr (s(p \<mapsto> v1'))
      \<and> (p \<noteq> q \<longrightarrow> (s(p \<mapsto> v1')) q = Some v2)
      \<and> (\<forall>f. map_index (errors v1') f =
              (case map_index (errors v2) f of
                 None \<Rightarrow> map_index (errors v1) f
               | Some errs \<Rightarrow> Some (slice_at (errors v1) f @ errs)))
      \<and> (\<forall>f. HasErrorFor v1 f \<or> HasErrorFor v2 f \<longrightarrow> HasErrorFor v1' f)
      \<and> (p = q \<longrightarrow>
            (\<forall>f. map_index (errors v1') f =
                   (case map_index (errors v1) f of
                      None \<Rightarrow> None
                    | Some errs \<Rightarrow> Some (errs @ errs))))"
proof -
  obtain v1' where m: "Merge v1 v2 = Inr v1'"
    and i: "\<forall>k. map_index (errors v1') k =
        (case map_index (errors v2) k of
           None \<Rightarrow> map_index (errors v1) k
         | Some errs \<Rightarrow> Some (slice_at (errors v1) k @ errs))"
    using Merge_index [of v1 v2] by blast
  have call: "Merge_call p q s = Inr (s(p \<mapsto> v1'))"
    using assms m by (simp add: Merge_call_def)
  have other: "p \<noteq> q \<longrightarrow> (s(p \<mapsto> v1')) q = Some v2"
    using assms by simp
  have has: "HasErrorFor v1 f \<or> HasErrorFor v2 f \<longrightarrow> HasErrorFor v1' f" for f
    using i by (auto simp: HasErrorFor_index slice_at_def split: option.splits)
  have self: "p = q \<longrightarrow>
            (\<forall>f. map_index (errors v1') f =
                   (case map_index (errors v1) f of
                      None \<Rightarrow> None
                    | Some errs \<Rightarrow> Some (errs @ errs)))"
  proof (intro impI allI)
    fix f
    assume "p = q"
    then have "v2 = v1" using assms by simp
    then show "map_index (errors v1') f =
                   (case map_index (errors v1) f of
                      None \<Rightarrow> None
                    | Some errs \<Rightarrow> Some (errs @ errs))"
      using i by (cases "map_index (errors v1) f") (simp_all add: slice_at_def)
  qed
  show ?thesis using call other i has self by blast
qed

theorem Merge_appends_other_after_own_witness:
  "(Map.empty(0 \<mapsto> \<lparr>errors = Some (DAList.update ''a'' [\<lparr>Field = ''a'', Message = ''m1''\<rparr>] DAList.empty)\<rparr>,
              1 \<mapsto> \<lparr>errors = Some (DAList.update ''b'' [\<lparr>Field = ''b'', Message = ''m3''\<rparr>]
                        (DAList.update ''a'' [\<lparr>Field = ''a'', Message = ''m2''\<rparr>] DAList.empty))\<rparr>)) (0::nat)
     = Some \<lparr>errors = Some (DAList.update ''a'' [\<lparr>Field = ''a'', Message = ''m1''\<rparr>] DAList.empty)\<rparr>
   \<and> (0::nat) \<noteq> 1
   \<and> (\<exists>v1'. Merge_call 0 1
          (Map.empty(0 \<mapsto> \<lparr>errors = Some (DAList.update ''a'' [\<lparr>Field = ''a'', Message = ''m1''\<rparr>] DAList.empty)\<rparr>,
              1 \<mapsto> \<lparr>errors = Some (DAList.update ''b'' [\<lparr>Field = ''b'', Message = ''m3''\<rparr>]
                        (DAList.update ''a'' [\<lparr>Field = ''a'', Message = ''m2''\<rparr>] DAList.empty))\<rparr>))
        = Inr (Map.empty(0 \<mapsto> v1',
              1 \<mapsto> \<lparr>errors = Some (DAList.update ''b'' [\<lparr>Field = ''b'', Message = ''m3''\<rparr>]
                        (DAList.update ''a'' [\<lparr>Field = ''a'', Message = ''m2''\<rparr>] DAList.empty))\<rparr>))
      \<and> map_index (errors v1') ''a''
           = Some [\<lparr>Field = ''a'', Message = ''m1''\<rparr>, \<lparr>Field = ''a'', Message = ''m2''\<rparr>]
      \<and> map_index (errors v1') ''b'' = Some [\<lparr>Field = ''b'', Message = ''m3''\<rparr>]
      \<and> HasErrorFor v1' ''a'' \<and> HasErrorFor v1' ''b'')"
proof -
  define A where "A = \<lparr>errors = Some (DAList.update ''a'' [\<lparr>Field = ''a'', Message = ''m1''\<rparr>] DAList.empty)\<rparr>"
  define B where "B = \<lparr>errors = Some (DAList.update ''b'' [\<lparr>Field = ''b'', Message = ''m3''\<rparr>]
                        (DAList.update ''a'' [\<lparr>Field = ''a'', Message = ''m2''\<rparr>] DAList.empty))\<rparr>"
  define s :: store where "s = Map.empty(0 \<mapsto> A, 1 \<mapsto> B)"
  have p: "s 0 = Some A" and q: "s 1 = Some B"
    by (simp_all add: s_def)
  have a: "map_index (errors A) ''a'' = Some [\<lparr>Field = ''a'', Message = ''m1''\<rparr>]"
    and b: "map_index (errors A) ''b'' = None"
    and c: "map_index (errors B) ''a'' = Some [\<lparr>Field = ''a'', Message = ''m2''\<rparr>]"
    and d: "map_index (errors B) ''b'' = Some [\<lparr>Field = ''b'', Message = ''m3''\<rparr>]"
    by (simp_all add: A_def B_def map_index_def DAList.lookup_update)
  have e: "HasErrorFor A ''a''" and f: "HasErrorFor B ''b''"
    by (simp_all add: HasErrorFor_def a d)
  have u: "s(0 \<mapsto> x) = Map.empty(0 \<mapsto> x, 1 \<mapsto> B)" for x
    by (auto simp: s_def)
  obtain v1' where "Merge_call 0 1 s = Inr (s(0 \<mapsto> v1'))"
    and "\<forall>f. map_index (errors v1') f =
              (case map_index (errors B) f of
                 None \<Rightarrow> map_index (errors A) f
               | Some errs \<Rightarrow> Some (slice_at (errors A) f @ errs))"
    and "\<forall>f. HasErrorFor A f \<or> HasErrorFor B f \<longrightarrow> HasErrorFor v1' f"
    using Merge_appends_other_after_own [OF p q] by blast
  then have "Merge_call 0 1 s = Inr (Map.empty(0 \<mapsto> v1', 1 \<mapsto> B))
      \<and> map_index (errors v1') ''a''
           = Some [\<lparr>Field = ''a'', Message = ''m1''\<rparr>, \<lparr>Field = ''a'', Message = ''m2''\<rparr>]
      \<and> map_index (errors v1') ''b'' = Some [\<lparr>Field = ''b'', Message = ''m3''\<rparr>]
      \<and> HasErrorFor v1' ''a'' \<and> HasErrorFor v1' ''b''"
    using a b c d e f u by (simp add: slice_at_def)
  then show ?thesis
    using p unfolding s_def A_def B_def by auto
qed

text \<open>
  The claim as it is written, for every pair of Validators, fails where both are the
  same Validator: \<^verbatim>\<open>v.Merge(v)\<close> on a Validator with the one error \<open>m1\<close> for \<open>a\<close>
  leaves it with that error twice, so the Validator passed as \<^verbatim>\<open>other\<close> is changed.
\<close>

theorem Merge_with_itself_changes_other:
  "(Map.empty(0 \<mapsto> \<lparr>errors = Some (DAList.update ''a'' [\<lparr>Field = ''a'', Message = ''m1''\<rparr>] DAList.empty)\<rparr>)) (0::nat)
     = Some \<lparr>errors = Some (DAList.update ''a'' [\<lparr>Field = ''a'', Message = ''m1''\<rparr>] DAList.empty)\<rparr>
   \<and> Merge_call 0 0
        (Map.empty(0 \<mapsto> \<lparr>errors = Some (DAList.update ''a'' [\<lparr>Field = ''a'', Message = ''m1''\<rparr>] DAList.empty)\<rparr>))
     = Inr (Map.empty(0 \<mapsto> \<lparr>errors = Some (DAList.update ''a''
              [\<lparr>Field = ''a'', Message = ''m1''\<rparr>, \<lparr>Field = ''a'', Message = ''m1''\<rparr>] DAList.empty)\<rparr>))
   \<and> (Map.empty(0 \<mapsto> \<lparr>errors = Some (DAList.update ''a''
              [\<lparr>Field = ''a'', Message = ''m1''\<rparr>, \<lparr>Field = ''a'', Message = ''m1''\<rparr>] DAList.empty)\<rparr>)) (0::nat)
     \<noteq> Some \<lparr>errors = Some (DAList.update ''a'' [\<lparr>Field = ''a'', Message = ''m1''\<rparr>] DAList.empty)\<rparr>
   \<and> messages_of (slice_at (errors \<lparr>errors = Some (DAList.update ''a''
              [\<lparr>Field = ''a'', Message = ''m1''\<rparr>, \<lparr>Field = ''a'', Message = ''m1''\<rparr>] DAList.empty)\<rparr>) ''a'')
     = [''m1'', ''m1'']"
proof -
  define A where "A = \<lparr>errors = Some (DAList.update ''a'' [\<lparr>Field = ''a'', Message = ''m1''\<rparr>] DAList.empty)\<rparr>"
  define A2 where "A2 = \<lparr>errors = Some (DAList.update ''a''
              [\<lparr>Field = ''a'', Message = ''m1''\<rparr>, \<lparr>Field = ''a'', Message = ''m1''\<rparr>] DAList.empty)\<rparr>"
  have r: "map_range (errors A) = [(''a'', [\<lparr>Field = ''a'', Message = ''m1''\<rparr>])]"
    by (simp add: A_def map_range_def DAList.update.rep_eq DAList.empty.rep_eq)
  have m: "Merge A A = Inr A2"
    by (simp add: Merge_def r) (simp add: A_def A2_def map_assign_def slice_at_def map_index_def)
  have c: "Merge_call 0 0 (Map.empty(0 \<mapsto> A)) = Inr (Map.empty(0 \<mapsto> A2))"
    by (simp add: Merge_call_def m)
  have s2: "messages_of (slice_at (errors A2) ''a'') = [''m1'', ''m1'']"
    by (simp add: A2_def slice_at_def map_index_def messages_of_def)
  have s1: "slice_at (errors A) ''a'' = [\<lparr>Field = ''a'', Message = ''m1''\<rparr>]"
    by (simp add: A_def slice_at_def map_index_def)
  have ne: "A2 \<noteq> A"
  proof
    assume "A2 = A"
    then have "messages_of (slice_at (errors A2) ''a'') = messages_of (slice_at (errors A) ''a'')"
      by simp
    then show False unfolding s1 s2 by (simp add: messages_of_def)
  qed
  show ?thesis
    using c s2 ne unfolding A_def A2_def by simp
qed


section \<open>The invariant of the error map\<close>

lemma inv_reachable:
  "reachable v \<Longrightarrow> errors v \<noteq> None \<and> (\<forall>k errs. map_index (errors v) k = Some errs \<longrightarrow> errs \<noteq> [])"
proof (induction rule: reachable.induct)
  case reach_New
  then show ?case by (simp add: New_def make_map_def map_index_def)
next
  case (reach_AddError v field message v')
  then show ?case using AddError_index [of v field message v']
    by (auto simp: AddError_result split: if_splits)
next
  case (reach_AddStandaloneError v message v')
  then show ?case using AddError_index [of v StandaloneErrorKey message v']
    by (auto simp: AddError_result AddStandaloneError_def split: if_splits)
next
  case (reach_Check v valid field message b v')
  then show ?case using AddError_index [of v field message v']
    by (auto simp: AddError_result Check_def split: if_splits)
next
  case (reach_CheckStandalone v valid message b v')
  then show ?case using AddError_index [of v StandaloneErrorKey message v']
    by (auto simp: AddError_result CheckStandalone_def AddStandaloneError_def split: if_splits)
next
  case (reach_Merge v other v')
  obtain v'' where m: "Merge v other = Inr v''" and ne: "errors v'' \<noteq> None"
    and i: "\<forall>k. map_index (errors v'') k =
        (case map_index (errors other) k of
           None \<Rightarrow> map_index (errors v) k
         | Some errs \<Rightarrow> Some (slice_at (errors v) k @ errs))"
    using Merge_index [of v other] by blast
  have "v'' = v'" using m reach_Merge.hyps by simp
  then show ?case using ne i reach_Merge.IH
    by (auto split: option.splits)
next
  case (reach_Clear v)
  then show ?case by (simp add: Clear_def make_map_def map_index_def)
qed

lemma map_len_pos: "(map_len m > 0) = (\<exists>k x. map_index m k = Some x)"
proof (cases m)
  case None
  then show ?thesis by (simp add: map_len_def map_index_def)
next
  case (Some al)
  show ?thesis
  proof (cases "DAList.impl_of al")
    case Nil
    then show ?thesis using Some by (simp add: map_len_def map_index_def DAList.lookup.rep_eq)
  next
    case (Cons x xs)
    obtain k y where "x = (k, y)" by (cases x)
    then have "map_index m k = Some y"
      using Some Cons by (simp add: map_index_def DAList.lookup.rep_eq)
    then show ?thesis using Some Cons by (auto simp: map_len_def)
  qed
qed

text \<open>
  C7. In every state that a Validator made by \<^verbatim>\<open>New()\<close> reaches through
  \<^verbatim>\<open>AddError\<close>, \<^verbatim>\<open>AddStandaloneError\<close>, \<^verbatim>\<open>Check\<close>,
  \<^verbatim>\<open>CheckStandalone\<close>, \<^verbatim>\<open>Merge\<close> with a reachable other and \<^verbatim>\<open>Clear\<close>,
  every key of the map holds a sequence with at least one error, and \<^verbatim>\<open>HasErrors()\<close>
  is true exactly when some key holds a non-empty sequence.
\<close>

theorem reachable_keys_hold_errors:
  assumes "reachable v"
  shows "(\<forall>k errs. map_index (errors v) k = Some errs \<longrightarrow> length errs \<ge> 1)
       \<and> (HasErrors v = (\<exists>k errs. map_index (errors v) k = Some errs \<and> errs \<noteq> []))"
proof -
  have inv: "\<forall>k errs. map_index (errors v) k = Some errs \<longrightarrow> errs \<noteq> []"
    using inv_reachable [OF assms] by blast
  then have a: "\<forall>k errs. map_index (errors v) k = Some errs \<longrightarrow> length errs \<ge> 1"
    by (auto simp: Suc_le_eq)
  have b: "HasErrors v = (\<exists>k errs. map_index (errors v) k = Some errs \<and> errs \<noteq> [])"
    using inv by (auto simp: HasErrors_def map_len_pos)
  show ?thesis using a b by blast
qed

theorem reachable_keys_hold_errors_witness:
  "reachable \<lparr>errors = Some (DAList.update ''a'' [\<lparr>Field = ''a'', Message = ''m1''\<rparr>] DAList.empty)\<rparr>
   \<and> map_index (errors \<lparr>errors = Some (DAList.update ''a'' [\<lparr>Field = ''a'', Message = ''m1''\<rparr>] DAList.empty)\<rparr>) ''a''
       = Some [\<lparr>Field = ''a'', Message = ''m1''\<rparr>]
   \<and> 1 \<le> length [\<lparr>Field = ''a'', Message = ''m1''\<rparr>]
   \<and> HasErrors \<lparr>errors = Some (DAList.update ''a'' [\<lparr>Field = ''a'', Message = ''m1''\<rparr>] DAList.empty)\<rparr>"
proof -
  define A where "A = \<lparr>errors = Some (DAList.update ''a'' [\<lparr>Field = ''a'', Message = ''m1''\<rparr>] DAList.empty)\<rparr>"
  have "AddError New ''a'' ''m1'' = Inr A"
    by (simp add: A_def AddError_def New_def make_map_def map_assign_def slice_at_def map_index_def)
  then have r: "reachable A"
    using reach_AddError [OF reach_New] by blast
  have a: "map_index (errors A) ''a'' = Some [\<lparr>Field = ''a'', Message = ''m1''\<rparr>]"
    by (simp add: A_def map_index_def)
  have "HasErrors A" "1 \<le> length [\<lparr>Field = ''a'', Message = ''m1''\<rparr>]"
    using reachable_keys_hold_errors [OF r] a by auto
  then show ?thesis using r a unfolding A_def by blast
qed


section \<open>Errors and MarshalJSON\<close>

lemma lookup_fold_fields:
  "distinct (map fst xs) \<Longrightarrow>
   DAList.lookup
     (fold (\<lambda>(field, errs) fields.
              if length errs > 0 then DAList.update field (g field) fields else fields) xs acc) k
   = (case map_of xs k of
        None \<Rightarrow> DAList.lookup acc k
      | Some errs \<Rightarrow> if length errs > 0 then Some (g k) else DAList.lookup acc k)"
proof (induction xs arbitrary: acc)
  case Nil
  then show ?case by simp
next
  case (Cons x xs)
  obtain field errs where x: "x = (field, errs)" by (cases x)
  have notin: "map_of xs field = None"
    using Cons.prems x by (simp add: map_of_eq_None_iff)
  have d: "distinct (map fst xs)" using Cons.prems by simp
  define acc' where "acc' = (if length errs > 0 then DAList.update field (g field) acc else acc)"
  have l: "DAList.lookup acc' k =
      (if k = field \<and> length errs > 0 then Some (g field) else DAList.lookup acc k)"
    by (simp add: acc'_def DAList.lookup_update)
  have ih: "DAList.lookup
     (fold (\<lambda>(field, errs) fields.
              if length errs > 0 then DAList.update field (g field) fields else fields) (x # xs) acc) k
   = (case map_of xs k of
        None \<Rightarrow> DAList.lookup acc' k
      | Some errs \<Rightarrow> if length errs > 0 then Some (g k) else DAList.lookup acc' k)"
    using Cons.IH [OF d, of acc'] by (simp add: x acc'_def)
  show ?case
  proof (cases "k = field")
    case True
    then show ?thesis using ih notin l by (simp add: x)
  next
    case False
    then have "DAList.lookup acc' k = DAList.lookup acc k" using l by simp
    then show ?thesis using ih False by (simp add: x cong: option.case_cong if_cong)
  qed
qed

lemma Errors_lookup:
  "DAList.lookup (Errors v) k = (if HasErrorFor v k then Some (ErrorFor v k) else None)"
  using lookup_fold_fields [OF distinct_map_range [of "errors v"],
      where g = "ErrorFor v" and acc = DAList.empty and k = k]
  by (cases "map_index (errors v) k") (simp_all add: Errors_def map_of_map_range HasErrorFor_def)

lemma MarshalJSON_Errors: "MarshalJSON v = json_Marshal_fields (Errors v)"
  by (simp add: MarshalJSON_def Errors_def)

lemma json_string_from_valid: "utf8_Valid_from n s \<Longrightarrow> json_string_from n s = s"
  by (induction n s rule: json_string_from.induct) (auto split: option.splits)

lemma json_string_valid: "utf8_ValidString s \<Longrightarrow> json_string s = s"
  by (simp add: utf8_ValidString_def json_string_def json_string_from_valid)

lemma json_strings_map:
  "json_strings (map (\<lambda>(k, s). (f k, JString (g s))) kvs) = Some (map (\<lambda>(k, s). (f k, g s)) kvs)"
  by (induction kvs) auto

lemma Unmarshal_Marshal_fields:
  "json_Unmarshal (json_Marshal_fields m) =
     Some (if length (DAList.impl_of m) = 0 then []
           else [(''fields'',
                  map (\<lambda>(k, s). (json_string k, json_string s)) (sort_key fst (DAList.impl_of m)))])"
  by (simp add: json_Unmarshal_def json_Marshal_fields_def json_strings_map)

lemma distinct_map_sort_key: "distinct (map f (sort_key f xs)) = distinct (map f xs)"
  by (induction xs) (simp_all add: distinct_insort_key)

lemma map_of_rev_sort_key:
  assumes "distinct (map fst xs)"
  shows "map_of (rev (sort_key fst xs)) = map_of xs"
proof -
  have "distinct (map fst (rev (sort_key fst xs)))"
    using assms by (simp add: rev_map [symmetric] distinct_map_sort_key)
  moreover have "set (rev (sort_key fst xs)) = set xs"
    by simp
  ultimately show ?thesis
    using assms map_of_inject_set by blast
qed

lemma Errors_entries:
  "(k, s) \<in> set (DAList.impl_of (Errors v)) \<Longrightarrow> HasErrorFor v k \<and> s = ErrorFor v k"
proof -
  assume "(k, s) \<in> set (DAList.impl_of (Errors v))"
  then have "DAList.lookup (Errors v) k = Some s"
    by (simp add: DAList.lookup.rep_eq)
  then show ?thesis
    by (simp add: Errors_lookup split: if_splits)
qed

lemma fields_of_valid:
  assumes "\<forall>(k, s) \<in> set (DAList.impl_of m). json_string k = k \<and> json_string s = s"
  shows "fields_of (if length (DAList.impl_of m) = 0 then []
           else [(''fields'',
                  map (\<lambda>(k, s). (json_string k, json_string s)) (sort_key fst (DAList.impl_of m)))])
         = DAList.lookup m"
proof -
  have "map (\<lambda>(k, s). (json_string k, json_string s)) (sort_key fst (DAList.impl_of m))
        = sort_key fst (DAList.impl_of m)"
    using assms by (intro map_idI) auto
  then show ?thesis
    by (auto simp: fields_of_def DAList.lookup.rep_eq map_of_rev_sort_key)
qed

lemma Errors_empty_iff:
  assumes "reachable v"
  shows "(length (DAList.impl_of (Errors v)) = 0) = (\<not> HasErrors v)"
proof -
  have inv: "\<forall>k errs. map_index (errors v) k = Some errs \<longrightarrow> errs \<noteq> []"
    using inv_reachable [OF assms] by blast
  have "(map_len (Some (Errors v)) > 0) = (\<exists>k x. map_index (Some (Errors v)) k = Some x)"
    by (rule map_len_pos)
  also have "\<dots> = (\<exists>k. HasErrorFor v k)"
    by (simp add: map_index_def Errors_lookup)
  also have "\<dots> = HasErrors v"
    using inv by (auto simp: HasErrors_def map_len_pos HasErrorFor_index)
  finally show ?thesis by (auto simp: map_len_def)
qed

text \<open>
  C9, as the code has it. For every reachable state, \<^verbatim>\<open>MarshalJSON\<close> gives the empty
  object, with no member \<^verbatim>\<open>"fields"\<close>, when the Validator has no errors (the
  \<^verbatim>\<open>omitempty\<close> of the struct tag). When it has errors, the result is the object with
  the one member \<^verbatim>\<open>"fields"\<close>, holding the entries of \<^verbatim>\<open>Errors()\<close> sorted by
  field name, with every byte of a name or a message that is not well-formed UTF-8
  turned into U+FFFD. \<^verbatim>\<open>Errors()\<close> holds exactly the fields with at least one
  error, the standalone key among them, each with its joined messages. Decoding always
  succeeds, and when the names of the fields with errors and their joined messages are
  valid UTF-8, reading \<^verbatim>\<open>"fields"\<close> from the decoded value gives back the map of
  \<^verbatim>\<open>Errors()\<close>.
\<close>

theorem MarshalJSON_round_trips_Errors:
  assumes "reachable v"
  shows "MarshalJSON v =
           (if HasErrors v
            then JObject [(''fields'',
                   JObject (map (\<lambda>(k, s). (json_string k, JString (json_string s)))
                              (sort_key fst (DAList.impl_of (Errors v)))))]
            else JObject [])
       \<and> (\<forall>k. DAList.lookup (Errors v) k = (if HasErrorFor v k then Some (ErrorFor v k) else None))
       \<and> (\<exists>d. json_Unmarshal (MarshalJSON v) = Some d
              \<and> ((\<forall>k. HasErrorFor v k \<longrightarrow> utf8_ValidString k \<and> utf8_ValidString (ErrorFor v k))
                   \<longrightarrow> fields_of d = DAList.lookup (Errors v)))"
proof -
  have a: "MarshalJSON v =
           (if HasErrors v
            then JObject [(''fields'',
                   JObject (map (\<lambda>(k, s). (json_string k, JString (json_string s)))
                              (sort_key fst (DAList.impl_of (Errors v)))))]
            else JObject [])"
    using Errors_empty_iff [OF assms] by (simp add: MarshalJSON_Errors json_Marshal_fields_def)
  define d where "d = (if length (DAList.impl_of (Errors v)) = 0 then []
           else [(''fields'',
                  map (\<lambda>(k, s). (json_string k, json_string s))
                    (sort_key fst (DAList.impl_of (Errors v))))])"
  have dec: "json_Unmarshal (MarshalJSON v) = Some d"
    by (simp add: d_def MarshalJSON_Errors Unmarshal_Marshal_fields)
  have rt: "fields_of d = DAList.lookup (Errors v)"
    if valid: "\<forall>k. HasErrorFor v k \<longrightarrow> utf8_ValidString k \<and> utf8_ValidString (ErrorFor v k)"
  proof -
    have "\<forall>(k, s) \<in> set (DAList.impl_of (Errors v)). json_string k = k \<and> json_string s = s"
    proof clarify
      fix k s
      assume "(k, s) \<in> set (DAList.impl_of (Errors v))"
      then have "HasErrorFor v k" and "s = ErrorFor v k"
        using Errors_entries by blast+
      then show "json_string k = k \<and> json_string s = s"
        using valid by (simp add: json_string_valid)
    qed
    then show ?thesis
      unfolding d_def by (rule fields_of_valid)
  qed
  have c: "\<exists>d. json_Unmarshal (MarshalJSON v) = Some d
              \<and> ((\<forall>k. HasErrorFor v k \<longrightarrow> utf8_ValidString k \<and> utf8_ValidString (ErrorFor v k))
                   \<longrightarrow> fields_of d = DAList.lookup (Errors v))"
    using dec rt by blast
  have b: "\<forall>k. DAList.lookup (Errors v) k = (if HasErrorFor v k then Some (ErrorFor v k) else None)"
    by (simp add: Errors_lookup)
  show ?thesis
    by (intro conjI) (rule a, rule b, rule c)
qed

lemma utf8_ValidString_ascii:
  "utf8_ValidString ''f''" "utf8_ValidString ''name''" "utf8_ValidString ''required''"
  by code_simp+

theorem MarshalJSON_round_trips_Errors_witness:
  "reachable \<lparr>errors = Some (DAList.update ''name'' [\<lparr>Field = ''name'', Message = ''required''\<rparr>] DAList.empty)\<rparr>
   \<and> utf8_ValidString ''name'' \<and> utf8_ValidString ''required''
   \<and> MarshalJSON \<lparr>errors = Some (DAList.update ''name'' [\<lparr>Field = ''name'', Message = ''required''\<rparr>] DAList.empty)\<rparr>
       = JObject [(''fields'', JObject [(''name'', JString ''required'')])]
   \<and> (\<exists>d. json_Unmarshal (MarshalJSON \<lparr>errors = Some (DAList.update ''name'' [\<lparr>Field = ''name'', Message = ''required''\<rparr>] DAList.empty)\<rparr>) = Some d
          \<and> fields_of d ''name'' = Some ''required'')"
proof -
  define A where "A = \<lparr>errors = Some (DAList.update ''name'' [\<lparr>Field = ''name'', Message = ''required''\<rparr>] DAList.empty)\<rparr>"
  have "AddError New ''name'' ''required'' = Inr A"
    by (simp add: A_def AddError_def New_def make_map_def map_assign_def slice_at_def map_index_def)
  then have r: "reachable A"
    using reach_AddError [OF reach_New] by blast
  have h: "HasErrors A"
    by (simp add: A_def HasErrors_def map_len_def DAList.update.rep_eq DAList.empty.rep_eq)
  have hf: "HasErrorFor A k = (k = ''name'')" for k
    by (simp add: A_def HasErrorFor_def map_index_def DAList.lookup_update)
  have ef: "ErrorFor A ''name'' = ''required''"
    by (simp add: A_def ErrorFor_def map_index_def messages_of_def)
  have e: "DAList.impl_of (Errors A) = [(''name'', ''required'')]"
    by (simp add: Errors_def A_def map_range_def DAList.update.rep_eq DAList.empty.rep_eq
        ErrorFor_def map_index_def DAList.lookup.rep_eq messages_of_def)
  have valid: "\<forall>k. HasErrorFor A k \<longrightarrow> utf8_ValidString k \<and> utf8_ValidString (ErrorFor A k)"
    by (simp add: hf ef utf8_ValidString_ascii)
  have js: "json_string ''name'' = ''name''" "json_string ''required'' = ''required''"
    by (simp_all add: json_string_valid utf8_ValidString_ascii)
  note t = MarshalJSON_round_trips_Errors [OF r]
  have m: "MarshalJSON A = JObject [(''fields'',
                   JObject (map (\<lambda>(k, s). (json_string k, JString (json_string s)))
                              (sort_key fst (DAList.impl_of (Errors A)))))]"
    using t [THEN conjunct1] h by simp
  have lk: "DAList.lookup (Errors A) ''name'' = Some (ErrorFor A ''name'')"
    using t [THEN conjunct2, THEN conjunct1] hf by simp
  obtain d where dec: "json_Unmarshal (MarshalJSON A) = Some d"
    and imp: "(\<forall>k. HasErrorFor A k \<longrightarrow> utf8_ValidString k \<and> utf8_ValidString (ErrorFor A k))
                \<longrightarrow> fields_of d = DAList.lookup (Errors A)"
    using t [THEN conjunct2, THEN conjunct2] by blast
  have rt: "fields_of d = DAList.lookup (Errors A)"
    using imp valid by blast
  have "MarshalJSON A = JObject [(''fields'', JObject [(''name'', JString ''required'')])]"
    using m by (simp add: e js)
  moreover have "fields_of d ''name'' = Some ''required''"
    using rt lk ef by simp
  ultimately show ?thesis
    using r dec utf8_ValidString_ascii unfolding A_def by blast
qed

text \<open>
  The claim as it is written fails at two reachable states. At the Validator that
  \<^verbatim>\<open>New()\<close> returns the result is the empty object, not an object with an empty
  \<^verbatim>\<open>"fields"\<close> member. After \<^verbatim>\<open>AddError("f", "\xff")\<close> the map of
  \<^verbatim>\<open>Errors()\<close> holds the byte \<open>0xFF\<close> for \<open>f\<close>, and the decoded value holds the three
  bytes of U+FFFD.
\<close>

theorem MarshalJSON_New_has_no_fields:
  "reachable New \<and> MarshalJSON New = JObject []
   \<and> MarshalJSON New \<noteq> JObject [(''fields'', JObject [])]
   \<and> reachable \<lparr>errors = Some (DAList.update ''f'' [\<lparr>Field = ''f'', Message = [CHR 0xFF]\<rparr>] DAList.empty)\<rparr>
   \<and> DAList.lookup (Errors \<lparr>errors = Some (DAList.update ''f'' [\<lparr>Field = ''f'', Message = [CHR 0xFF]\<rparr>] DAList.empty)\<rparr>) ''f''
       = Some [CHR 0xFF]
   \<and> json_Unmarshal (MarshalJSON \<lparr>errors = Some (DAList.update ''f'' [\<lparr>Field = ''f'', Message = [CHR 0xFF]\<rparr>] DAList.empty)\<rparr>)
       = Some [(''fields'', [(''f'', [CHR 0xEF, CHR 0xBF, CHR 0xBD])])]
   \<and> fields_of [(''fields'', [(''f'', [CHR 0xEF, CHR 0xBF, CHR 0xBD])])] ''f''
       = Some [CHR 0xEF, CHR 0xBF, CHR 0xBD]
   \<and> [CHR 0xEF, CHR 0xBF, CHR 0xBD] \<noteq> [CHR 0xFF]"
proof -
  define B where "B = \<lparr>errors = Some (DAList.update ''f'' [\<lparr>Field = ''f'', Message = [CHR 0xFF]\<rparr>] DAList.empty)\<rparr>"
  have n: "MarshalJSON New = JObject []"
    by (simp add: MarshalJSON_def json_Marshal_fields_def New_def make_map_def map_range_def
        DAList.empty.rep_eq)
  have "AddError New ''f'' [CHR 0xFF] = Inr B"
    by (simp add: B_def AddError_def New_def make_map_def map_assign_def slice_at_def map_index_def)
  then have r: "reachable B"
    using reach_AddError [OF reach_New] by blast
  have e: "DAList.impl_of (Errors B) = [(''f'', [CHR 0xFF])]"
    by (simp add: Errors_def B_def map_range_def DAList.update.rep_eq DAList.empty.rep_eq
        ErrorFor_def map_index_def DAList.lookup.rep_eq messages_of_def)
  have l: "DAList.lookup (Errors B) ''f'' = Some [CHR 0xFF]"
    by (simp add: DAList.lookup.rep_eq e)
  have js: "json_string ''f'' = ''f''" "json_string [CHR 0xFF] = [CHR 0xEF, CHR 0xBF, CHR 0xBD]"
    by code_simp+
  have u: "json_Unmarshal (MarshalJSON B) = Some [(''fields'', [(''f'', [CHR 0xEF, CHR 0xBF, CHR 0xBD])])]"
    by (simp add: MarshalJSON_Errors Unmarshal_Marshal_fields e js)
  have f: "fields_of [(''fields'', [(''f'', [CHR 0xEF, CHR 0xBF, CHR 0xBD])])] ''f''
       = Some [CHR 0xEF, CHR 0xBF, CHR 0xBD]"
    by (simp add: fields_of_def)
  show ?thesis
    using n reach_New r l u f unfolding B_def by simp
qed


section \<open>The zero Validator\<close>

lemma AddError_zero: "AddError zero_Validator field message = AddError New field message"
  by (simp add: AddError_def zero_Validator_def New_def make_map_def)

lemma Merge_zero: "Merge zero_Validator other = Merge New other"
  by (simp add: Merge_def zero_Validator_def New_def make_map_def)

lemma map_range_zero:
  "map_range (errors zero_Validator) = []" "map_range (errors New) = []"
  by (simp_all add: zero_Validator_def New_def make_map_def map_range_def DAList.empty.rep_eq)

lemma map_index_zero: "map_index (errors zero_Validator) k = map_index (errors New) k"
  by (simp add: zero_Validator_def New_def make_map_def map_index_def)

lemma map_len_zero: "map_len (errors zero_Validator) = map_len (errors New)"
  by (simp add: zero_Validator_def New_def make_map_def map_len_def DAList.empty.rep_eq)

lemma ErrorFor_zero: "ErrorFor zero_Validator = ErrorFor New"
  by (rule ext) (simp add: ErrorFor_def map_index_zero)

lemma queries_zero:
  "HasErrors zero_Validator = HasErrors New"
  "HasErrorFor zero_Validator k = HasErrorFor New k"
  "HasStandaloneErrors zero_Validator = HasStandaloneErrors New"
  "ErrorFor zero_Validator k = ErrorFor New k"
  "StandaloneErrors zero_Validator = StandaloneErrors New"
  "Errors zero_Validator = Errors New"
  "Error zero_Validator = Error New"
  "MarshalJSON zero_Validator = MarshalJSON New"
  by (simp_all add: HasErrors_def HasErrorFor_def HasStandaloneErrors_def StandaloneErrors_def
      Errors_def Error_def MarshalJSON_def map_len_zero map_index_zero map_range_zero ErrorFor_zero)

lemma Check_total: "\<exists>v'. Check v valid field message = Inr (valid, v')"
  using Check_cases [of v valid field message] by blast

lemma CheckStandalone_total: "\<exists>v'. CheckStandalone v valid message = Inr (valid, v')"
  using AddError_total [of v StandaloneErrorKey message]
  by (cases valid) (auto simp: CheckStandalone_def AddStandaloneError_def)

text \<open>
  C10. On the zero Validator, whose map is nil, \<^verbatim>\<open>AddError\<close> and \<^verbatim>\<open>Merge\<close>
  return, leave a map that is not nil, and give the very result they give on a Validator
  made by \<^verbatim>\<open>New()\<close>; so do the failing \<^verbatim>\<open>Check\<close> and \<^verbatim>\<open>CheckStandalone\<close> and
  \<^verbatim>\<open>AddStandaloneError\<close>. A passing check leaves the zero Validator as it is. No
  call panics on it: the checks, the chain methods, and \<^verbatim>\<open>Merge\<close> with the zero
  Validator on either side all return. \<^verbatim>\<open>Clear\<close> turns it into the Validator of
  \<^verbatim>\<open>New()\<close>, and every query answers on it as it does on that Validator.
\<close>

theorem zero_Validator_is_usable:
  "AddError zero_Validator field message = AddError New field message
   \<and> (\<exists>v'. AddError zero_Validator field message = Inr v' \<and> errors v' \<noteq> None)
   \<and> Merge zero_Validator other = Merge New other
   \<and> (\<exists>v'. Merge zero_Validator other = Inr v' \<and> errors v' \<noteq> None)
   \<and> (\<exists>v'. Merge v zero_Validator = Inr v')
   \<and> AddStandaloneError zero_Validator message = AddStandaloneError New message
   \<and> Check zero_Validator False field message = Check New False field message
   \<and> Check zero_Validator True field message = Inr (True, zero_Validator)
   \<and> CheckStandalone zero_Validator False message = CheckStandalone New False message
   \<and> CheckStandalone zero_Validator True message = Inr (True, zero_Validator)
   \<and> (\<exists>v'. Check zero_Validator valid field message = Inr (valid, v'))
   \<and> (\<exists>v'. CheckStandalone zero_Validator valid message = Inr (valid, v'))
   \<and> (\<exists>v'. FieldValidation_Check fv valid message zero_Validator = Inr (fv, v'))
   \<and> (\<exists>w' v'. run_chain calls w zero_Validator = Inr (w', v'))
   \<and> Clear zero_Validator = New
   \<and> HasErrors zero_Validator = HasErrors New
   \<and> HasErrorFor zero_Validator field = HasErrorFor New field
   \<and> HasStandaloneErrors zero_Validator = HasStandaloneErrors New
   \<and> ErrorFor zero_Validator field = ErrorFor New field
   \<and> StandaloneErrors zero_Validator = StandaloneErrors New
   \<and> Errors zero_Validator = Errors New
   \<and> Error zero_Validator = Error New
   \<and> MarshalJSON zero_Validator = MarshalJSON New
   \<and> map_range (ValidationErrors zero_Validator) = map_range (ValidationErrors New)"
proof -
  have a: "\<exists>v'. AddError zero_Validator field message = Inr v' \<and> errors v' \<noteq> None"
    by (simp add: AddError_result)
  have m: "\<exists>v'. Merge zero_Validator other = Inr v' \<and> errors v' \<noteq> None"
    using Merge_index [of zero_Validator other] by blast
  have mo: "\<exists>v'. Merge v zero_Validator = Inr v'"
    using Merge_index [of v zero_Validator] by blast
  have fc: "\<exists>v'. FieldValidation_Check fv valid message zero_Validator = Inr (fv, v')"
    using Check_total [of zero_Validator valid "fv_field fv" message]
    by (auto simp: FieldValidation_Check_def)
  have rc: "\<exists>w' v'. run_chain calls w zero_Validator = Inr (w', v')"
    using run_chain_condition [of calls w zero_Validator] by blast
  have cl: "Clear zero_Validator = New"
    by (simp add: Clear_def zero_Validator_def New_def)
  have c1: "Check zero_Validator False field message = Check New False field message"
    by (simp add: Check_def AddError_zero)
  have c2: "Check zero_Validator True field message = Inr (True, zero_Validator)"
    by (simp add: Check_def)
  have s1: "CheckStandalone zero_Validator False message = CheckStandalone New False message"
    by (simp add: CheckStandalone_def AddStandaloneError_def AddError_zero)
  have s2: "CheckStandalone zero_Validator True message = Inr (True, zero_Validator)"
    by (simp add: CheckStandalone_def)
  have as: "AddStandaloneError zero_Validator message = AddStandaloneError New message"
    by (simp add: AddStandaloneError_def AddError_zero)
  have ve: "map_range (ValidationErrors zero_Validator) = map_range (ValidationErrors New)"
    by (simp add: ValidationErrors_def map_range_zero)
  show ?thesis
    by (intro conjI)
       (rule AddError_zero a Merge_zero m mo as c1 c2 s1 s2 Check_total CheckStandalone_total fc rc cl
          queries_zero ve)+
qed

end
